theory Spec2Isabelle
  imports Main
begin

unbundle bit_operations_syntax

section \<open>Python built-ins used by hashver.py\<close>

text \<open>
  Version strings and profile strings are modelled as \<open>string\<close>, a list of characters
  that stand for the code points below 256, and Python's unbounded integers as \<open>int\<close>.
  The built-ins below follow Python 3 on such text. Code points from 256 on (further
  Unicode spaces and the decimal digits of other scripts, which \<^verbatim>\<open>int()\<close> also
  accepts) are outside the type, and the interpreter's resource limits (memory, the
  optional cap on the number of digits that \<^verbatim>\<open>int()\<close> and \<^verbatim>\<open>str()\<close> convert) are not
  modelled.
\<close>

text \<open>\<^verbatim>\<open>s.split(sep)\<close> for a one-character separator: one more piece than there are
  separators, empty pieces kept, so the result is never empty.\<close>

fun str_split :: "char \<Rightarrow> string \<Rightarrow> string list" where
  "str_split sep [] = [[]]"
| "str_split sep (c # cs) =
     (if c = sep then [] # str_split sep cs
      else (c # hd (str_split sep cs)) # tl (str_split sep cs))"

text \<open>\<^verbatim>\<open>sep.join(xs)\<close>.\<close>

fun str_join :: "string \<Rightarrow> string list \<Rightarrow> string" where
  "str_join sep [] = []"
| "str_join sep [x] = x"
| "str_join sep (x # y # ys) = x @ sep @ str_join sep (y # ys)"

text \<open>The characters that \<^verbatim>\<open>int()\<close> skips around a numeral: space, tab, line feed,
  vertical tab, form feed and carriage return, and the two Unicode spaces below 256,
  next line (U+0085) and no-break space (U+00A0). The separators U+001C to U+001F are
  not skipped. No code point from 128 to 255 is a decimal digit.\<close>

definition is_space :: "char \<Rightarrow> bool" where
  "is_space c = (of_char c \<in> {32, 9, 10, 11, 12, 13, 133, 160 :: nat})"

definition is_digit :: "char \<Rightarrow> bool" where
  "is_digit c = (48 \<le> (of_char c :: nat) \<and> (of_char c :: nat) \<le> 57)"

definition digit_val :: "char \<Rightarrow> int" where
  "digit_val c = int (of_char c) - 48"

text \<open>The body of a numeral, after the sign: digits, with single underscores allowed
  between two digits. \<open>prev_us\<close> tells that the previous character was an underscore
  (or that no digit has been read yet, where an underscore is refused as well).\<close>

fun digits_ok :: "bool \<Rightarrow> string \<Rightarrow> bool" where
  "digits_ok prev_us [] = (\<not> prev_us)"
| "digits_ok prev_us (c # cs) =
     (if c = CHR ''_'' then \<not> prev_us \<and> digits_ok True cs
      else is_digit c \<and> digits_ok False cs)"

fun digits_value :: "int \<Rightarrow> string \<Rightarrow> int" where
  "digits_value acc [] = acc"
| "digits_value acc (c # cs) =
     (if c = CHR ''_'' then digits_value acc cs
      else digits_value (acc * 10 + digit_val c) cs)"

definition strip :: "string \<Rightarrow> string" where
  "strip s = rev (dropWhile is_space (rev (dropWhile is_space s)))"

definition unsigned_int :: "string \<Rightarrow> int option" where
  "unsigned_int s = (if digits_ok True s then Some (digits_value 0 s) else None)"

text \<open>\<^verbatim>\<open>int(s)\<close> for a string, base 10: surrounding whitespace is skipped, one sign is
  allowed, and anything else that is not a numeral raises \<^verbatim>\<open>ValueError\<close>, here
  \<open>None\<close>.\<close>

definition py_int :: "string \<Rightarrow> int option" where
  "py_int s =
     (case strip s of
        [] \<Rightarrow> None
      | c # cs \<Rightarrow>
          if c = CHR ''-'' then map_option uminus (unsigned_int cs)
          else if c = CHR ''+'' then unsigned_int cs
          else unsigned_int (c # cs))"

text \<open>\<^verbatim>\<open>str(n)\<close> for an integer: its decimal digits, with a minus sign when negative.\<close>

fun str_nat :: "nat \<Rightarrow> string" where
  "str_nat n =
     (if n < 10 then [char_of (48 + n)]
      else str_nat (n div 10) @ [char_of (48 + n mod 10)])"

declare str_nat.simps [simp del]

definition py_str :: "int \<Rightarrow> string" where
  "py_str i = (if i < 0 then CHR ''-'' # str_nat (nat (- i)) else str_nat (nat i))"

section \<open>The HashVer class\<close>

text \<open>The exceptions that leave the methods. \<open>HashVerException\<close> carries the operands its
  message is formatted from:
  \<^item> \<open>ComponentNotNumeric comp\<close>: a component before the last is refused by \<^verbatim>\<open>int()\<close>;
  \<^item> \<open>LastComponentNotNumeric comp\<close>: the part of the last component before its first
    hyphen is refused by \<^verbatim>\<open>int()\<close>; \<open>comp\<close> is the whole last component;
  \<^item> \<open>ComponentCountMismatch version_str bpc\<close>: "\<open>version_str\<close> must have as many dot
    separated components as \<open>bpc\<close>";
  \<^item> \<open>NotCompatible num bpc\<close>: "\<open>num\<close> is not compatible with \<open>bpc\<close>";
  \<^item> \<open>ParsingError e\<close>: "Parsing Error: ...", the wrapper that the outer
    \<^verbatim>\<open>except Exception\<close> puts around a Python exception \<open>e\<close> of the arithmetic:
    the \<^verbatim>\<open>ValueError\<close> "negative shift count" of \<^verbatim>\<open><<\<close>, or the \<^verbatim>\<open>TypeError\<close>
    "unsupported operand type(s) for &" of an integer and a float.
  \<^verbatim>\<open>HashVerException\<close> derives from \<^verbatim>\<open>BaseException\<close>, so the outer handler does not catch
  and wrap the first four. \<open>ValueError tok\<close> is the built-in exception of \<^verbatim>\<open>int(tok)\<close>
  that leaves the constructor as it is.\<close>

datatype wrapped = NegativeShiftCount | FloatOperand

datatype message =
    ComponentNotNumeric string
  | LastComponentNotNumeric string
  | ComponentCountMismatch string "int list"
  | NotCompatible int "int list"
  | ParsingError wrapped

datatype error = ValueError string | HashVerException message

record HashVer =
  bits_per_component :: "int list"

datatype bpc_arg = BpcStr string | BpcList "int list"

text \<open>\<^verbatim>\<open>[int(x) for x in xs]\<close>: the integers, or the first string that \<^verbatim>\<open>int()\<close> refuses.\<close>

fun int_each :: "string list \<Rightarrow> string + int list" where
  "int_each [] = Inr []"
| "int_each (x # xs) =
     (case py_int x of
        None \<Rightarrow> Inl x
      | Some n \<Rightarrow> (case int_each xs of Inl bad \<Rightarrow> Inl bad | Inr ns \<Rightarrow> Inr (n # ns)))"

text \<open>\<^verbatim>\<open>HashVer.__init__\<close>.\<close>

fun init :: "bpc_arg \<Rightarrow> error + HashVer" where
  "init (BpcStr s) =
     (case int_each (str_split CHR ''.'' s) of
        Inl bad \<Rightarrow> Inl (ValueError bad)
      | Inr ws \<Rightarrow> Inr \<lparr>bits_per_component = ws\<rparr>)"
| "init (BpcList ws) = Inr \<lparr>bits_per_component = ws\<rparr>"

subsection \<open>get\_num\<close>

text \<open>Lines 47 to 72: the list \<open>vpc\<close> of component values. The loop over
  \<^verbatim>\<open>components[:-1]\<close> stops at the first component \<^verbatim>\<open>int()\<close> refuses; the last
  component is cut at its first hyphen before it is converted.\<close>

definition parse_components :: "string \<Rightarrow> error + int list" where
  "parse_components version_str =
     (let components = str_split CHR ''.'' version_str in
      case int_each (butlast components) of
        Inl bad \<Rightarrow> Inl (HashVerException (ComponentNotNumeric bad))
      | Inr vpc \<Rightarrow>
          (case py_int (hd (str_split CHR ''-'' (last components))) of
             None \<Rightarrow> Inl (HashVerException (LastComponentNotNumeric (last components)))
           | Some n \<Rightarrow> Inr (vpc @ [n])))"

text \<open>Lines 80 to 89: the loop over \<^verbatim>\<open>zip(vpc, bpc)\<close>, with its variables \<open>num\<close> and
  \<open>shift\<close>. A negative shift count raises \<^verbatim>\<open>ValueError\<close>, which the outer handler
  wraps.\<close>

fun accumulate :: "int \<Rightarrow> bool \<Rightarrow> (int \<times> int) list \<Rightarrow> error + int" where
  "accumulate num shift [] = Inr num"
| "accumulate num shift ((cur_val, num_of_bits) # rest) =
     (if shift then
        (if num_of_bits < 0 then Inl (HashVerException (ParsingError NegativeShiftCount))
         else accumulate (push_bit (nat num_of_bits) num + cur_val) True rest)
      else accumulate (num + cur_val) True rest)"

definition get_num :: "HashVer \<Rightarrow> string \<Rightarrow> error + int" where
  "get_num self version_str =
     (let bpc = bits_per_component self in
      case parse_components version_str of
        Inl e \<Rightarrow> Inl e
      | Inr vpc \<Rightarrow>
          if length bpc \<noteq> length vpc
          then Inl (HashVerException (ComponentCountMismatch version_str bpc))
          else accumulate 0 False (zip vpc bpc))"

subsection \<open>get\_version\_str\<close>

text \<open>Lines 104 to 107: the loop over \<^verbatim>\<open>reversed(bpc)\<close>, with its variables \<open>mut_num\<close>
  and \<open>components\<close>. For a negative width \<^verbatim>\<open>2 ** num_of_bits\<close> is a float, and
  \<^verbatim>\<open>&\<close> of an integer and a float raises \<^verbatim>\<open>TypeError\<close>, which the outer handler
  wraps.\<close>

fun unpack :: "int list \<Rightarrow> int \<Rightarrow> string list \<Rightarrow> error + (int \<times> string list)" where
  "unpack [] mut_num components = Inr (mut_num, components)"
| "unpack (num_of_bits # rest) mut_num components =
     (if num_of_bits < 0
      then Inl (HashVerException (ParsingError FloatOperand))
      else
        (let max_val = 2 ^ nat num_of_bits - 1 in
         unpack rest (drop_bit (nat num_of_bits) mut_num)
           (py_str (mut_num AND max_val) # components)))"

definition get_version_str :: "HashVer \<Rightarrow> int \<Rightarrow> error + string" where
  "get_version_str self num =
     (let bpc = bits_per_component self in
      case unpack (rev bpc) num [] of
        Inl e \<Rightarrow> Inl e
      | Inr (mut_num, components) \<Rightarrow>
          if mut_num \<noteq> 0 then Inl (HashVerException (NotCompatible num bpc))
          else Inr (str_join ''.'' components))"

section \<open>Notions of the specification\<close>

text \<open>The component texts that are converted: the components of the version string, the
  last one cut at its first hyphen.\<close>

definition stripped_components :: "string \<Rightarrow> string list" where
  "stripped_components version_str =
     (let components = str_split CHR ''.'' version_str in
      butlast components @ [hd (str_split CHR ''-'' (last components))])"

text \<open>The specification's \<open>strip_suffix\<close>: the version string with the last component
  cut at its first hyphen. The tests of the repository compare the decoded string with
  \<^verbatim>\<open>ver.split('-')[0]\<close>, which is the same string when no earlier component holds a
  hyphen.\<close>

definition strip_suffix :: "string \<Rightarrow> string" where
  "strip_suffix version_str = str_join ''.'' (stripped_components version_str)"

text \<open>A component value \<open>v\<close> fits the width \<open>w\<close> when it lies in \<open>[0, 2^w)\<close>; a list of
  values is valid under a profile when there is one value for each width and each value
  fits its width.\<close>

definition fits :: "int \<Rightarrow> int \<Rightarrow> bool" where
  "fits v w = (0 \<le> w \<and> 0 \<le> v \<and> v < 2 ^ nat w)"

definition valid_under :: "int list \<Rightarrow> int list \<Rightarrow> bool" where
  "valid_under bpc vpc = list_all2 fits vpc bpc"

text \<open>The component-wise numeric comparison of the specification, most significant
  component first: \<open>-1\<close>, \<open>0\<close> or \<open>1\<close>.\<close>

fun component_wise_compare :: "int list \<Rightarrow> int list \<Rightarrow> int" where
  "component_wise_compare (a # as) (b # bs) =
     (if a < b then - 1 else if b < a then 1 else component_wise_compare as bs)"
| "component_wise_compare _ _ = 0"

text \<open>A component text parses as a non-negative base-10 integer.\<close>

definition parses_nonneg :: "string \<Rightarrow> bool" where
  "parses_nonneg s = (case py_int s of None \<Rightarrow> False | Some n \<Rightarrow> 0 \<le> n)"

text \<open>The domain error of the module is \<open>HashVerException\<close>; the built-in
  \<open>ValueError\<close> is not.\<close>

fun is_domain_error :: "error \<Rightarrow> bool" where
  "is_domain_error (HashVerException m) = True"
| "is_domain_error (ValueError tok) = False"

text \<open>A component text is canonical when it is the decimal text \<^verbatim>\<open>str()\<close> gives back for
  its value: digits only, no sign, no spaces, no underscores, no leading zeros.\<close>

definition canonical :: "string \<Rightarrow> bool" where
  "canonical s = (case py_int s of None \<Rightarrow> False | Some n \<Rightarrow> py_str n = s)"

definition canonical_version :: "string \<Rightarrow> bool" where
  "canonical_version version_str = list_all canonical (stripped_components version_str)"

text \<open>The value the specification gives for the encoding of the component values
  \<open>v\<^sub>1..v\<^sub>n\<close> under the widths \<open>w\<^sub>1..w\<^sub>n\<close>: each \<open>v\<^sub>i\<close> times two to the sum of the
  widths after the \<open>i\<close>-th.\<close>

definition weighted_sum :: "int list \<Rightarrow> int list \<Rightarrow> int" where
  "weighted_sum vpc bpc =
     (\<Sum>i < length vpc. vpc ! i * 2 ^ nat (sum_list (drop (Suc i) bpc)))"

text \<open>The \<open>i\<close>-th component that decoding reads from \<open>num\<close>: the bits of \<open>num\<close> above the
  widths after the \<open>i\<close>-th, cut to the \<open>i\<close>-th width.\<close>

definition field :: "int list \<Rightarrow> int \<Rightarrow> nat \<Rightarrow> int" where
  "field bpc num i = (num div 2 ^ nat (sum_list (drop (Suc i) bpc))) mod 2 ^ nat (bpc ! i)"

section \<open>Facts about the built-ins\<close>

lemma str_split_nonempty: "str_split sep s \<noteq> []"
  by (induction s) auto

lemma int_each_find:
  "int_each xs =
     (case find (\<lambda>x. py_int x = None) xs of
        Some bad \<Rightarrow> Inl bad
      | None \<Rightarrow> Inr (map (the \<circ> py_int) xs))"
  by (induction xs) (auto split: option.splits sum.splits)

lemma int_each_length: "int_each xs = Inr ns \<Longrightarrow> length ns = length xs"
  by (auto simp: int_each_find split: option.splits)

text \<open>Padding with the spaces U+00A0 and U+0085 is skipped like ASCII padding, and the
  separator U+001C is not.\<close>

lemma py_int_padding:
  "py_int [CHR 0xA0, CHR ''1''] = Some 1
   \<and> py_int [CHR 0x85, CHR ''1''] = Some 1
   \<and> py_int [CHR ''1'', CHR 0xA0] = Some 1
   \<and> py_int [CHR ''-'', CHR 0xA0, CHR ''1''] = None
   \<and> py_int [CHR 0x1C, CHR ''1''] = None"
  by code_simp

lemma padded_components:
  "get_num \<lparr>bits_per_component = [16, 16, 16]\<rparr> (CHR 0xA0 # ''1.2.3'') = Inr 4295098371
   \<and> get_num \<lparr>bits_per_component = [16, 16, 16]\<rparr> (CHR 0xA0 # ''1.x.3'')
       = Inl (HashVerException (ComponentNotNumeric ''x''))
   \<and> init (BpcStr (''8.'' @ CHR 0xA0 # ''8'')) = Inr \<lparr>bits_per_component = [8, 8]\<rparr>"
  by code_simp

section \<open>Parsing and the component count\<close>

lemma parse_components_length:
  assumes "parse_components v = Inr vpc"
  shows "length vpc = length (str_split CHR ''.'' v)"
proof -
  from assms obtain ns n where "int_each (butlast (str_split CHR ''.'' v)) = Inr ns"
    and "vpc = ns @ [n]"
    by (auto simp: parse_components_def Let_def split: sum.splits option.splits)
  then show ?thesis
    using str_split_nonempty [of "CHR ''.''" v]
      int_each_length [of "butlast (str_split CHR ''.'' v)" ns]
    by (cases "str_split CHR ''.'' v") auto
qed

text \<open>C6: when every component parses but the number of dot-separated components is
  not the length of the profile, \<open>get_num\<close> fails with the component-count error, whose
  message is formatted from the version string and the profile.\<close>

theorem get_num_count_mismatch:
  assumes "parse_components version_str = Inr vpc"
    and "length (str_split CHR ''.'' version_str) \<noteq> length (bits_per_component self)"
  shows "get_num self version_str =
           Inl (HashVerException (ComponentCountMismatch version_str (bits_per_component self)))"
  using assms parse_components_length [OF assms(1)]
  by (simp add: get_num_def)

theorem get_num_count_mismatch_witness:
  "parse_components ''1.2'' = Inr [1, 2]
   \<and> length (str_split CHR ''.'' ''1.2'')
       \<noteq> length (bits_per_component \<lparr>bits_per_component = [16, 16, 16]\<rparr>)
   \<and> get_num \<lparr>bits_per_component = [16, 16, 16]\<rparr> ''1.2'' =
       Inl (HashVerException (ComponentCountMismatch ''1.2'' [16, 16, 16]))"
proof -
  have p: "parse_components ''1.2'' = Inr [1, 2]"
    by code_simp
  have l: "length (str_split CHR ''.'' ''1.2'')
             \<noteq> length (bits_per_component \<lparr>bits_per_component = [16, 16, 16]\<rparr>)"
    by simp
  show ?thesis
    using p l get_num_count_mismatch [OF p l] by simp
qed

section \<open>The arithmetic of the two loops\<close>

lemma and_max_val: "(k::int) AND (2 ^ n - 1) = k mod 2 ^ n"
  by (simp flip: mask_eq_exp_minus_1 take_bit_eq_mask add: take_bit_eq_mod)

lemma nat_sum_list_snoc:
  assumes "\<forall>w \<in> set ws. (0::int) \<le> w" and "0 \<le> w"
  shows "nat (sum_list (ws @ [w])) = nat (sum_list ws) + nat w"
proof -
  have "0 \<le> sum_list ws" using assms(1) by (simp add: sum_list_nonneg)
  then show ?thesis using assms(2) by (simp add: nat_add_distrib)
qed

lemma field_snoc_less:
  assumes "\<forall>w \<in> set ws. (0::int) \<le> w" and "0 \<le> w" and "i < length ws"
  shows "field (ws @ [w]) m i = field ws (m div 2 ^ nat w) i"
proof -
  have nn: "0 \<le> sum_list (drop (Suc i) ws)"
    using assms(1) by (meson in_set_dropD sum_list_nonneg)
  have "nat (sum_list (drop (Suc i) (ws @ [w]))) = nat w + nat (sum_list (drop (Suc i) ws))"
    using assms(2,3) nn by (simp add: nat_add_distrib)
  then show ?thesis
    using assms(3) by (simp add: field_def nth_append power_add zdiv_zmult2_eq)
qed

lemma field_snoc_last: "field (ws @ [w]) m (length ws) = m mod 2 ^ nat w"
  by (simp add: field_def)

lemma unpack_rev:
  assumes "\<forall>w \<in> set bpc. 0 \<le> w"
  shows "unpack (rev bpc) m comps =
           Inr (m div 2 ^ nat (sum_list bpc),
                map (\<lambda>i. py_str (field bpc m i)) [0..<length bpc] @ comps)"
  using assms
proof (induction bpc arbitrary: m comps rule: rev_induct)
  case Nil
  then show ?case by simp
next
  case (snoc w ws)
  have nn: "\<forall>w \<in> set ws. 0 \<le> w" and w: "0 \<le> w"
    using snoc.prems by auto
  have s: "nat (sum_list (ws @ [w])) = nat (sum_list ws) + nat w"
    by (rule nat_sum_list_snoc [OF nn w])
  have m: "map (\<lambda>i. py_str (field (ws @ [w]) m i)) [0..<length ws]
             = map (\<lambda>i. py_str (field ws (m div 2 ^ nat w) i)) [0..<length ws]"
    using field_snoc_less [OF nn w] by simp
  have "unpack (rev (ws @ [w])) m comps =
          unpack (rev ws) (m div 2 ^ nat w) (py_str (m mod 2 ^ nat w) # comps)"
    using w by (simp add: and_max_val drop_bit_eq_div)
  also have "\<dots> = Inr ((m div 2 ^ nat w) div 2 ^ nat (sum_list ws),
      map (\<lambda>i. py_str (field ws (m div 2 ^ nat w) i)) [0..<length ws]
        @ py_str (m mod 2 ^ nat w) # comps)"
    by (rule snoc.IH [OF nn])
  also have "(m div 2 ^ nat w) div 2 ^ nat (sum_list ws) = m div 2 ^ nat (sum_list (ws @ [w]))"
    unfolding s by (simp add: power_add zdiv_zmult2_eq mult.commute)
  finally show ?case
    using m by (simp add: field_snoc_last)
qed

lemma weighted_sum_Cons:
  "weighted_sum (v # vs) (w # ws) = v * 2 ^ nat (sum_list ws) + weighted_sum vs ws"
  unfolding weighted_sum_def length_Cons sum.lessThan_Suc_shift by simp

lemma accumulate_shifting:
  assumes "length vs = length ws" and "\<forall>w \<in> set ws. 0 \<le> w"
  shows "accumulate num True (zip vs ws) =
           Inr (num * 2 ^ nat (sum_list ws) + weighted_sum vs ws)"
  using assms
proof (induction vs ws arbitrary: num rule: list_induct2)
  case Nil
  then show ?case by (simp add: weighted_sum_def)
next
  case (Cons v vs w ws)
  have "0 \<le> sum_list ws" using Cons.prems by (simp add: sum_list_nonneg)
  then have "nat (w + sum_list ws) = nat w + nat (sum_list ws)"
    using Cons.prems by (simp add: nat_add_distrib)
  then show ?case
    using Cons by (simp add: weighted_sum_Cons push_bit_eq_mult power_add algebra_simps)
qed

lemma accumulate_weighted_sum:
  assumes "length vpc = length bpc" and "\<forall>w \<in> set (tl bpc). 0 \<le> w"
  shows "accumulate 0 False (zip vpc bpc) = Inr (weighted_sum vpc bpc)"
proof (cases vpc)
  case Nil
  then show ?thesis using assms by (simp add: weighted_sum_def)
next
  case (Cons v vs)
  then obtain w ws where b: "bpc = w # ws" using assms(1) by (cases bpc) auto
  then show ?thesis
    using Cons assms accumulate_shifting [of vs ws v]
    by (simp add: weighted_sum_Cons)
qed

lemma valid_under_Cons:
  "valid_under (w # ws) (v # vs) \<longleftrightarrow> fits v w \<and> valid_under ws vs"
  by (simp add: valid_under_def)

lemma valid_under_length: "valid_under bpc vpc \<Longrightarrow> length vpc = length bpc"
  by (simp add: valid_under_def list_all2_lengthD)

lemma valid_under_nonneg: "valid_under bpc vpc \<Longrightarrow> \<forall>w \<in> set bpc. 0 \<le> w"
  unfolding valid_under_def
  by (induction vpc bpc rule: list_all2_induct) (auto simp: fits_def)

lemma weighted_sum_bounds:
  "valid_under bpc vpc \<Longrightarrow>
     0 \<le> weighted_sum vpc bpc \<and> weighted_sum vpc bpc < 2 ^ nat (sum_list bpc)"
  unfolding valid_under_def
proof (induction vpc bpc rule: list_all2_induct)
  case Nil
  then show ?case by (simp add: weighted_sum_def)
next
  case (Cons v vs w ws)
  let ?S = "nat (sum_list ws)"
  let ?R = "weighted_sum vs ws"
  have nn: "0 \<le> sum_list ws"
    using Cons.hyps(2) valid_under_nonneg [of ws vs]
    by (simp add: valid_under_def sum_list_nonneg)
  have w: "0 \<le> w" "0 \<le> v" "v < 2 ^ nat w" using Cons.hyps(1) by (simp_all add: fits_def)
  have e: "nat (w + sum_list ws) = nat w + ?S"
    using w(1) nn by (simp add: nat_add_distrib)
  have R: "0 \<le> ?R" "?R < 2 ^ ?S" using Cons.IH by simp_all
  have "v + 1 \<le> 2 ^ nat w" using w(3) by simp
  then have "(v + 1) * 2 ^ ?S \<le> 2 ^ nat w * (2 ^ ?S :: int)"
    by (rule mult_right_mono) simp
  then have "v * 2 ^ ?S + ?R < 2 ^ nat w * (2 ^ ?S :: int)"
    using R(2) by (simp add: algebra_simps)
  moreover have "0 \<le> v * 2 ^ ?S + ?R"
    using w(2) R(1) by simp
  ultimately show ?case
    by (simp add: weighted_sum_Cons e power_add)
qed

lemma field_Cons_0:
  "field (w # ws) m 0 = (m div 2 ^ nat (sum_list ws)) mod 2 ^ nat w"
  by (simp add: field_def)

lemma field_Cons_Suc:
  assumes "i < length ws" and "\<forall>w \<in> set ws. 0 \<le> w" and "0 \<le> w"
  shows "field (w # ws) (v * 2 ^ nat (sum_list ws) + r) (Suc i) = field ws r i"
proof -
  let ?T = "nat (sum_list (drop (Suc i) ws))"
  let ?H = "nat (sum_list (take i ws))"
  let ?k = "nat (ws ! i)"
  have ws: "ws = take i ws @ ws ! i # drop (Suc i) ws"
    using assms(1) by (simp add: id_take_nth_drop)
  have nnT: "0 \<le> sum_list (drop (Suc i) ws)"
    using assms(2) by (meson in_set_dropD sum_list_nonneg)
  have nnH: "0 \<le> sum_list (take i ws)"
    using assms(2) by (meson in_set_takeD sum_list_nonneg)
  have nnk: "0 \<le> ws ! i" using assms(1,2) by simp
  have "sum_list ws = sum_list (take i ws) + ws ! i + sum_list (drop (Suc i) ws)"
    by (subst ws) simp
  then have S: "nat (sum_list ws) = ?H + ?k + ?T"
    using nnT nnH nnk by (simp add: nat_add_distrib)
  have "(v * 2 ^ nat (sum_list ws) + r) div 2 ^ ?T = v * 2 ^ ?H * 2 ^ ?k + r div 2 ^ ?T"
    unfolding S by (simp add: power_add mult.assoc [symmetric])
  then show ?thesis
    by (simp add: field_def)
qed

lemma field_weighted_sum:
  "valid_under bpc vpc \<Longrightarrow> i < length vpc \<Longrightarrow> field bpc (weighted_sum vpc bpc) i = vpc ! i"
  unfolding valid_under_def
proof (induction vpc bpc arbitrary: i rule: list_all2_induct)
  case Nil
  then show ?case by simp
next
  case (Cons v vs w ws)
  have va: "valid_under ws vs" using Cons.hyps(2) by (simp add: valid_under_def)
  have R: "0 \<le> weighted_sum vs ws" "weighted_sum vs ws < 2 ^ nat (sum_list ws)"
    using weighted_sum_bounds [OF va] by simp_all
  have w: "0 \<le> w" "0 \<le> v" "v < 2 ^ nat w" using Cons.hyps(1) by (simp_all add: fits_def)
  show ?case
  proof (cases i)
    case 0
    have "(v * 2 ^ nat (sum_list ws) + weighted_sum vs ws) div 2 ^ nat (sum_list ws) = v"
      using R by simp
    then show ?thesis
      using 0 w by (simp add: weighted_sum_Cons field_Cons_0)
  next
    case (Suc j)
    then have j: "j < length vs" using Cons.prems by simp
    have "j < length ws" using j valid_under_length [OF va] by simp
    then show ?thesis
      using Suc j Cons.IH [OF j] valid_under_nonneg [OF va] w(1)
      by (simp add: weighted_sum_Cons field_Cons_Suc)
  qed
qed

lemma compare_weighted_sum:
  "valid_under bpc va \<Longrightarrow> valid_under bpc vb \<Longrightarrow>
     component_wise_compare va vb = sgn (weighted_sum va bpc - weighted_sum vb bpc)"
proof (induction bpc arbitrary: va vb)
  case Nil
  then show ?case by (simp add: valid_under_def weighted_sum_def)
next
  case (Cons w ws)
  from Cons.prems obtain a as b bs where va: "va = a # as" and vb: "vb = b # bs"
    and A: "valid_under ws as" and B: "valid_under ws bs"
    by (auto simp: valid_under_def list_all2_Cons2)
  let ?P = "2 ^ nat (sum_list ws) :: int"
  have RA: "0 \<le> weighted_sum as ws" "weighted_sum as ws < ?P"
    using weighted_sum_bounds [OF A] by simp_all
  have RB: "0 \<le> weighted_sum bs ws" "weighted_sum bs ws < ?P"
    using weighted_sum_bounds [OF B] by simp_all
  consider "a < b" | "b < a" | "a = b" by linarith
  then show ?case
  proof cases
    case 1
    then have "(a + 1) * ?P \<le> b * ?P" by (intro mult_right_mono) simp_all
    then have "a * ?P + weighted_sum as ws < b * ?P + weighted_sum bs ws"
      using RA(2) RB(1) by (simp add: algebra_simps)
    then show ?thesis using 1 va vb by (simp add: weighted_sum_Cons)
  next
    case 2
    then have "(b + 1) * ?P \<le> a * ?P" by (intro mult_right_mono) simp_all
    then have "b * ?P + weighted_sum bs ws < a * ?P + weighted_sum as ws"
      using RB(2) RA(1) by (simp add: algebra_simps)
    then show ?thesis using 2 va vb by (simp add: weighted_sum_Cons)
  next
    case 3
    then show ?thesis using va vb Cons.IH [OF A B] by (simp add: weighted_sum_Cons)
  qed
qed

lemma compare_eq_0_iff:
  "length va = length vb \<Longrightarrow> component_wise_compare va vb = 0 \<longleftrightarrow> va = vb"
  by (induction va vb rule: list_induct2) auto

section \<open>Encoding and decoding\<close>

lemma get_num_closed:
  assumes "parse_components version_str = Inr vpc"
    and "length vpc = length (bits_per_component self)"
    and "\<forall>w \<in> set (tl (bits_per_component self)). 0 \<le> w"
  shows "get_num self version_str = Inr (weighted_sum vpc (bits_per_component self))"
  using assms accumulate_weighted_sum [OF assms(2,3)]
  by (simp add: get_num_def)

lemma get_version_str_closed:
  assumes "\<forall>w \<in> set (bits_per_component self). 0 \<le> w"
  shows "get_version_str self num =
           (if num div 2 ^ nat (sum_list (bits_per_component self)) \<noteq> 0
            then Inl (HashVerException (NotCompatible num (bits_per_component self)))
            else Inr (str_join ''.''
                   (map (\<lambda>i. py_str (field (bits_per_component self) num i))
                      [0..<length (bits_per_component self)])))"
  by (simp add: get_version_str_def Let_def unpack_rev [OF assms])

lemma div_exp_eq_0_iff:
  "0 \<le> (num::int) \<Longrightarrow> num div 2 ^ n \<noteq> 0 \<longleftrightarrow> 2 ^ n \<le> num"
proof -
  assume "0 \<le> num"
  then have "0 \<le> num div 2 ^ n"
    by (simp add: pos_imp_zdiv_nonneg_iff)
  moreover have "0 < num div 2 ^ n \<longleftrightarrow> 2 ^ n \<le> num"
    by (simp add: pos_imp_zdiv_pos_iff)
  ultimately show ?thesis
    by linarith
qed

text \<open>C3: when the version string parses and has as many components as the profile
  has widths, \<open>get_num\<close> returns what the loop accumulates from 0, shifting left by each
  width but the first before the value is added, and that number is
  \<open>v\<^sub>1 * 2^(w\<^sub>2 + ... + w\<^sub>n) + v\<^sub>2 * 2^(w\<^sub>3 + ... + w\<^sub>n) + ... + v\<^sub>n\<close>, not clamped.\<close>

theorem get_num_weighted_sum:
  assumes "parse_components version_str = Inr vpc"
    and "length vpc = length (bits_per_component self)"
    and "\<forall>w \<in> set (tl (bits_per_component self)). 0 \<le> w"
  shows "get_num self version_str = accumulate 0 False (zip vpc (bits_per_component self))
         \<and> get_num self version_str = Inr (weighted_sum vpc (bits_per_component self))"
  using assms accumulate_weighted_sum [OF assms(2,3)]
  by (simp add: get_num_def)

theorem get_num_weighted_sum_witness:
  "parse_components ''8.20.1300.14'' = Inr [8, 20, 1300, 14]
   \<and> get_num \<lparr>bits_per_component = [8, 8, 16, 8]\<rparr> ''8.20.1300.14''
       = Inr (8 * 2 ^ 32 + 20 * 2 ^ 24 + 1300 * 2 ^ 8 + 14)"
proof -
  have p: "parse_components ''8.20.1300.14'' = Inr [8, 20, 1300, 14]"
    by code_simp
  have w: "weighted_sum [8, 20, 1300, 14] [8, 8, 16, 8] = 8 * 2 ^ 32 + 20 * 2 ^ 24 + 1300 * 2 ^ 8 + 14"
    by (simp add: weighted_sum_def lessThan_Suc numeral_eq_Suc)
  show ?thesis
    using p w get_num_weighted_sum [of "''8.20.1300.14''" "[8, 20, 1300, 14]"
        "\<lparr>bits_per_component = [8, 8, 16, 8]\<rparr>"]
    by simp
qed

text \<open>C8: when the version string parses and has as many components as the profile
  has widths, \<open>get_num\<close> returns the sum of the values, each times two to the sum of the
  widths after its own, whatever the size of the values: no value is checked against
  its width, and a value that does not fit runs over into the bits of the component
  before it. Under the widths 8, 8, 8 the value 256 of "1.256.0" gives the result of
  "2.0.0", and so does the value 16 of "1.16.0" under the widths 8, 4, 16.\<close>

theorem get_num_no_range_check:
  assumes "parse_components version_str = Inr vpc"
    and "length vpc = length (bits_per_component self)"
    and "\<forall>w \<in> set (tl (bits_per_component self)). 0 \<le> w"
  shows "get_num self version_str = Inr (weighted_sum vpc (bits_per_component self))
         \<and> get_num \<lparr>bits_per_component = [8, 8, 8]\<rparr> ''1.256.0'' = Inr 131072
         \<and> get_num \<lparr>bits_per_component = [8, 8, 8]\<rparr> ''2.0.0'' = Inr 131072
         \<and> get_num \<lparr>bits_per_component = [8, 4, 16]\<rparr> ''1.16.0'' = Inr 2097152
         \<and> get_num \<lparr>bits_per_component = [8, 4, 16]\<rparr> ''2.0.0'' = Inr 2097152"
proof (intro conjI)
  show "get_num self version_str = Inr (weighted_sum vpc (bits_per_component self))"
    by (rule get_num_closed [OF assms])
  show "get_num \<lparr>bits_per_component = [8, 8, 8]\<rparr> ''1.256.0'' = Inr 131072"
    by code_simp
  show "get_num \<lparr>bits_per_component = [8, 8, 8]\<rparr> ''2.0.0'' = Inr 131072"
    by code_simp
  show "get_num \<lparr>bits_per_component = [8, 4, 16]\<rparr> ''1.16.0'' = Inr 2097152"
    by code_simp
  show "get_num \<lparr>bits_per_component = [8, 4, 16]\<rparr> ''2.0.0'' = Inr 2097152"
    by code_simp
qed

theorem get_num_no_range_check_witness:
  "parse_components ''3.300.70000'' = Inr [3, 300, 70000]
   \<and> \<not> fits 300 4 \<and> \<not> fits 70000 16
   \<and> get_num \<lparr>bits_per_component = [8, 4, 16]\<rparr> ''3.300.70000''
       = Inr (3 * 2 ^ 20 + 300 * 2 ^ 16 + 70000)"
proof -
  have p: "parse_components ''3.300.70000'' = Inr [3, 300, 70000]"
    by code_simp
  have f: "\<not> fits 300 4" "\<not> fits 70000 16"
    by (simp_all add: fits_def)
  have w: "weighted_sum [3, 300, 70000] [8, 4, 16] = 3 * 2 ^ 20 + 300 * 2 ^ 16 + 70000"
    by (simp add: weighted_sum_def lessThan_Suc numeral_eq_Suc)
  show ?thesis
    using p f w get_num_no_range_check [of "''3.300.70000''" "[3, 300, 70000]"
        "\<lparr>bits_per_component = [8, 4, 16]\<rparr>"]
    by simp
qed

text \<open>C4: for a non-negative \<open>num\<close>, \<open>get_version_str\<close> fails exactly when \<open>num\<close> is at
  least two to the sum of the widths, that is, when bits remain after all widths have
  been shifted out, and the failure is the not-compatible error; otherwise it returns
  the decimal texts of the fields of \<open>num\<close>, each masked to its width, joined with dots.
  Decoding \<open>2^48\<close> under the widths 16, 16, 16 fails.\<close>

theorem get_version_str_overflow:
  assumes "0 \<le> num" and "\<forall>w \<in> set (bits_per_component self). 0 \<le> w"
  shows "((\<exists>e. get_version_str self num = Inl e)
            \<longleftrightarrow> 2 ^ nat (sum_list (bits_per_component self)) \<le> num)
         \<and> (2 ^ nat (sum_list (bits_per_component self)) \<le> num \<longrightarrow>
              get_version_str self num
                = Inl (HashVerException (NotCompatible num (bits_per_component self))))
         \<and> (num < 2 ^ nat (sum_list (bits_per_component self)) \<longrightarrow>
              get_version_str self num
                = Inr (str_join ''.''
                    (map (\<lambda>i. py_str (field (bits_per_component self) num i))
                       [0..<length (bits_per_component self)])))
         \<and> get_version_str \<lparr>bits_per_component = [16, 16, 16]\<rparr> (2 ^ 48)
             = Inl (HashVerException (NotCompatible (2 ^ 48) [16, 16, 16]))"
proof -
  have c: "get_version_str \<lparr>bits_per_component = [16, 16, 16]\<rparr> (2 ^ 48)
             = Inl (HashVerException (NotCompatible (2 ^ 48) [16, 16, 16]))"
    by code_simp
  show ?thesis
    using div_exp_eq_0_iff [OF assms(1), of "nat (sum_list (bits_per_component self))"] c
    unfolding get_version_str_closed [OF assms(2)]
    by (auto simp del: upt_Suc)
qed

theorem get_version_str_overflow_witness:
  "get_version_str \<lparr>bits_per_component = [8, 8, 16, 8]\<rparr> 34695615502 = Inr ''8.20.1300.14''
   \<and> get_version_str \<lparr>bits_per_component = [8, 8, 16, 8]\<rparr> (2 ^ 40)
       = Inl (HashVerException (NotCompatible (2 ^ 40) [8, 8, 16, 8]))"
proof -
  let ?S = "\<lparr>bits_per_component = [8, 8, 16, 8]\<rparr>"
  have w: "\<forall>w \<in> set (bits_per_component ?S). 0 \<le> w"
    by simp
  have n1: "(0::int) \<le> 34695615502" and n2: "(0::int) \<le> 2 ^ 40"
    by simp_all
  have lt: "34695615502 < (2::int) ^ nat (sum_list (bits_per_component ?S))"
    by simp
  have ge: "(2::int) ^ nat (sum_list (bits_per_component ?S)) \<le> 2 ^ 40"
    by simp
  have "get_version_str ?S 34695615502
          = Inr (str_join ''.''
              (map (\<lambda>i. py_str (field (bits_per_component ?S) 34695615502 i))
                 [0..<length (bits_per_component ?S)]))"
    using get_version_str_overflow [OF n1 w] lt by blast
  also have "\<dots> = Inr ''8.20.1300.14''"
    by code_simp
  finally have a: "get_version_str ?S 34695615502 = Inr ''8.20.1300.14''" .
  have b: "get_version_str ?S (2 ^ 40)
             = Inl (HashVerException (NotCompatible (2 ^ 40) (bits_per_component ?S)))"
    using get_version_str_overflow [OF n2 w] ge by blast
  show ?thesis
    using a b by simp
qed

section \<open>Round trip\<close>

lemma tl_nonneg: "\<forall>w \<in> set ws. (0::int) \<le> w \<Longrightarrow> \<forall>w \<in> set (tl ws). 0 \<le> w"
  by (cases ws) auto

lemma int_each_append:
  "int_each (xs @ ys) =
     (case int_each xs of
        Inl bad \<Rightarrow> Inl bad
      | Inr ns \<Rightarrow> (case int_each ys of Inl bad \<Rightarrow> Inl bad | Inr ms \<Rightarrow> Inr (ns @ ms)))"
  by (induction xs) (auto split: option.splits sum.splits)

lemma parse_components_Inr_iff:
  "parse_components v = Inr vpc \<longleftrightarrow> int_each (stripped_components v) = Inr vpc"
  by (auto simp: parse_components_def stripped_components_def Let_def int_each_append
      split: sum.splits option.splits)

lemma parse_components_values:
  assumes "parse_components v = Inr vpc"
  shows "vpc = map (the \<circ> py_int) (stripped_components v)"
  using assms unfolding parse_components_Inr_iff int_each_find
  by (auto split: option.splits)

lemma canonical_py_str: "canonical c \<Longrightarrow> py_str (the (py_int c)) = c"
  by (auto simp: canonical_def split: option.splits)

lemma get_version_str_weighted_sum:
  assumes "valid_under (bits_per_component self) vpc"
  shows "get_version_str self (weighted_sum vpc (bits_per_component self))
           = Inr (str_join ''.'' (map py_str vpc))"
proof -
  let ?bpc = "bits_per_component self"
  let ?x = "weighted_sum vpc ?bpc"
  have len: "length vpc = length ?bpc"
    by (rule valid_under_length [OF assms])
  have b: "0 \<le> ?x" "?x < 2 ^ nat (sum_list ?bpc)"
    using weighted_sum_bounds [OF assms] by simp_all
  then have z: "?x div 2 ^ nat (sum_list ?bpc) = 0"
    by simp
  have "map (\<lambda>i. py_str (field ?bpc ?x i)) [0..<length ?bpc] = map (\<lambda>i. py_str (vpc ! i)) [0..<length vpc]"
    using field_weighted_sum [OF assms] len by simp
  also have "\<dots> = map py_str vpc"
    by (rule nth_equalityI) simp_all
  finally show ?thesis
    using z by (simp add: get_version_str_closed [OF valid_under_nonneg [OF assms]])
qed

text \<open>C1, amended: for a version string that parses, whose values are valid under the
  profile and whose components are written canonically (the decimal text of their
  value), decoding the encoding gives the version string with the last component cut
  at its first hyphen.\<close>

theorem round_trip_canonical:
  assumes "parse_components version_str = Inr vpc"
    and "valid_under (bits_per_component self) vpc"
    and "canonical_version version_str"
  shows "\<exists>num. get_num self version_str = Inr num
           \<and> get_version_str self num = Inr (strip_suffix version_str)"
proof -
  let ?bpc = "bits_per_component self"
  have nn: "\<forall>w \<in> set (tl ?bpc). 0 \<le> w"
    by (rule tl_nonneg [OF valid_under_nonneg [OF assms(2)]])
  have enc: "get_num self version_str = Inr (weighted_sum vpc ?bpc)"
    by (rule get_num_closed [OF assms(1) valid_under_length [OF assms(2)] nn])
  have "map py_str vpc = map (\<lambda>c. py_str (the (py_int c))) (stripped_components version_str)"
    by (simp add: parse_components_values [OF assms(1)])
  also have "\<dots> = stripped_components version_str"
    using assms(3) by (simp add: canonical_version_def list_all_iff canonical_py_str map_idI)
  finally have "str_join ''.'' (map py_str vpc) = strip_suffix version_str"
    by (simp add: strip_suffix_def)
  then show ?thesis
    using enc get_version_str_weighted_sum [OF assms(2)] by simp
qed

theorem round_trip_canonical_witness:
  "parse_components ''0.6.4-rc1'' = Inr [0, 6, 4]
   \<and> valid_under (bits_per_component \<lparr>bits_per_component = [16, 16, 16]\<rparr>) [0, 6, 4]
   \<and> canonical_version ''0.6.4-rc1''
   \<and> strip_suffix ''0.6.4-rc1'' = ''0.6.4''
   \<and> (\<exists>num. get_num \<lparr>bits_per_component = [16, 16, 16]\<rparr> ''0.6.4-rc1'' = Inr num
         \<and> get_version_str \<lparr>bits_per_component = [16, 16, 16]\<rparr> num = Inr ''0.6.4'')"
proof -
  have p: "parse_components ''0.6.4-rc1'' = Inr [0, 6, 4]"
    by code_simp
  have v: "valid_under (bits_per_component \<lparr>bits_per_component = [16, 16, 16]\<rparr>) [0, 6, 4]"
    by (simp add: valid_under_def fits_def)
  have c: "canonical_version ''0.6.4-rc1''"
    by code_simp
  have s: "strip_suffix ''0.6.4-rc1'' = ''0.6.4''"
    by code_simp
  show ?thesis
    using p v c s round_trip_canonical [OF p v c] by simp
qed

text \<open>C1 as stated fails where a component is written with a leading zero: "01.2.3"
  parses, its values fit the widths 16, 16, 16, and it decodes to "1.2.3".\<close>

theorem round_trip_leading_zero_counterexample:
  "parse_components ''01.2.3'' = Inr [1, 2, 3]
   \<and> valid_under [16, 16, 16] [1, 2, 3]
   \<and> get_num \<lparr>bits_per_component = [16, 16, 16]\<rparr> ''01.2.3'' = Inr 4295098371
   \<and> get_version_str \<lparr>bits_per_component = [16, 16, 16]\<rparr> 4295098371 = Inr ''1.2.3''
   \<and> strip_suffix ''01.2.3'' = ''01.2.3''
   \<and> ''1.2.3'' \<noteq> strip_suffix ''01.2.3''"
  by code_simp

section \<open>Parse errors and the constructor\<close>

lemma hd_str_split: "hd (str_split sep s) = takeWhile (\<lambda>c. c \<noteq> sep) s"
  by (induction s) auto

lemma digits_value_nonneg:
  "0 \<le> acc \<Longrightarrow> digits_ok prev_us s \<Longrightarrow> 0 \<le> digits_value acc s"
proof (induction s arbitrary: acc prev_us)
  case Nil
  then show ?case by simp
next
  case (Cons c cs)
  show ?case
  proof (cases "c = CHR ''_''")
    case True
    then show ?thesis using Cons by auto
  next
    case False
    then have d: "is_digit c" and ok: "digits_ok False cs" using Cons.prems(2) by simp_all
    have "0 \<le> acc * 10 + digit_val c"
      using Cons.prems(1) d by (simp add: is_digit_def digit_val_def)
    then show ?thesis using False Cons.IH [OF _ ok] by simp
  qed
qed

lemma unsigned_int_nonneg: "unsigned_int s = Some n \<Longrightarrow> 0 \<le> n"
  using digits_value_nonneg [of 0 True s]
  by (auto simp: unsigned_int_def split: if_splits)

lemma set_strip: "set (strip s) \<subseteq> set s"
  unfolding strip_def
  by (metis set_dropWhileD set_rev subsetI)

lemma py_int_nonneg:
  assumes "CHR ''-'' \<notin> set s" and "py_int s = Some n"
  shows "0 \<le> n"
proof -
  have m: "CHR ''-'' \<notin> set (strip s)"
    using assms(1) set_strip by blast
  show ?thesis
  proof (cases "strip s")
    case Nil
    then show ?thesis using assms(2) by (simp add: py_int_def)
  next
    case (Cons c cs)
    then have "c \<noteq> CHR ''-''" using m by auto
    then show ?thesis
      using assms(2) Cons
      by (auto simp: py_int_def split: if_splits dest: unsigned_int_nonneg)
  qed
qed

lemma parses_nonneg_prefix:
  "parses_nonneg (hd (str_split CHR ''-'' s)) \<longleftrightarrow> py_int (hd (str_split CHR ''-'' s)) \<noteq> None"
proof -
  have "CHR ''-'' \<notin> set (hd (str_split CHR ''-'' s))"
    unfolding hd_str_split by (metis (mono_tags, lifting) set_takeWhileD)
  then show ?thesis
    using py_int_nonneg by (auto simp: parses_nonneg_def split: option.splits)
qed

text \<open>C5, amended: when \<^verbatim>\<open>int()\<close> refuses some component before the last, or when the
  part of the last component before its first hyphen does not parse as a non-negative
  base-10 integer, \<open>get_num\<close> fails with a \<open>HashVerException\<close>: for the first refused
  component before the last, if there is one, and for the last component otherwise.\<close>

theorem get_num_parse_error:
  assumes "(\<exists>c \<in> set (butlast (str_split CHR ''.'' version_str)). py_int c = None)
           \<or> \<not> parses_nonneg (hd (str_split CHR ''-'' (last (str_split CHR ''.'' version_str))))"
  shows "get_num self version_str =
           (case find (\<lambda>c. py_int c = None) (butlast (str_split CHR ''.'' version_str)) of
              Some c \<Rightarrow> Inl (HashVerException (ComponentNotNumeric c))
            | None \<Rightarrow> Inl (HashVerException
                         (LastComponentNotNumeric (last (str_split CHR ''.'' version_str)))))"
proof (cases "find (\<lambda>c. py_int c = None) (butlast (str_split CHR ''.'' version_str))")
  case None
  then have "\<not> (\<exists>c \<in> set (butlast (str_split CHR ''.'' version_str)). py_int c = None)"
    by (simp add: find_None_iff)
  then have "py_int (hd (str_split CHR ''-'' (last (str_split CHR ''.'' version_str)))) = None"
    using assms parses_nonneg_prefix by blast
  then show ?thesis
    using None by (simp add: get_num_def parse_components_def Let_def int_each_find)
next
  case (Some c)
  then show ?thesis
    by (simp add: get_num_def parse_components_def Let_def int_each_find)
qed

theorem get_num_parse_error_witness:
  "(\<exists>c \<in> set (butlast (str_split CHR ''.'' ''1.x.3'')). py_int c = None)
   \<and> get_num \<lparr>bits_per_component = [16, 16, 16]\<rparr> ''1.x.3''
       = Inl (HashVerException (ComponentNotNumeric ''x''))
   \<and> \<not> parses_nonneg (hd (str_split CHR ''-'' (last (str_split CHR ''.'' ''1.2.-3''))))
   \<and> get_num \<lparr>bits_per_component = [16, 16, 16]\<rparr> ''1.2.-3''
       = Inl (HashVerException (LastComponentNotNumeric ''-3''))"
proof -
  have s1: "butlast (str_split CHR ''.'' ''1.x.3'') = [''1'', ''x'']"
    by code_simp
  have x: "py_int ''x'' = None" and one: "py_int ''1'' = Some 1"
    by code_simp+
  have h1: "\<exists>c \<in> set (butlast (str_split CHR ''.'' ''1.x.3'')). py_int c = None"
    unfolding s1 using x by simp
  have s2: "butlast (str_split CHR ''.'' ''1.2.-3'') = [''1'', ''2'']"
    and l2: "last (str_split CHR ''.'' ''1.2.-3'') = ''-3''"
    by code_simp+
  have two: "py_int ''2'' = Some 2"
    by code_simp
  have h2: "\<not> parses_nonneg (hd (str_split CHR ''-'' (last (str_split CHR ''.'' ''1.2.-3''))))"
    by code_simp
  have a: "get_num \<lparr>bits_per_component = [16, 16, 16]\<rparr> ''1.x.3''
             = Inl (HashVerException (ComponentNotNumeric ''x''))"
    using get_num_parse_error [of "''1.x.3''" "\<lparr>bits_per_component = [16, 16, 16]\<rparr>"] h1
    unfolding s1 by (simp add: x one)
  have b: "get_num \<lparr>bits_per_component = [16, 16, 16]\<rparr> ''1.2.-3''
             = Inl (HashVerException (LastComponentNotNumeric ''-3''))"
    using get_num_parse_error [of "''1.2.-3''" "\<lparr>bits_per_component = [16, 16, 16]\<rparr>"] h2
    unfolding s2 l2 by (simp add: one two)
  show ?thesis
    using h1 h2 a b by blast
qed

text \<open>C5 as stated fails for a component before the last that carries a minus sign:
  "-1" is not a non-negative integer, \<^verbatim>\<open>int()\<close> accepts it, and "-1.2.3" is encoded
  under the widths 16, 16, 16 as a negative number.\<close>

theorem get_num_negative_component_counterexample:
  "''-1'' \<in> set (butlast (str_split CHR ''.'' ''-1.2.3''))
   \<and> \<not> parses_nonneg ''-1''
   \<and> get_num \<lparr>bits_per_component = [16, 16, 16]\<rparr> ''-1.2.3'' = Inr (- 4294836221)"
  by code_simp

text \<open>C9, amended: on a profile string with a token that \<^verbatim>\<open>int()\<close> refuses the
  constructor fails with the built-in \<open>ValueError\<close> for the first such token, and it
  never fails with the domain error; on a string of dot-separated integers it stores
  the list of these integers, which is what it stores when given that list, and
  "8.8.16.8" gives the same object as the list 8, 8, 16, 8.\<close>

theorem init_from_string:
  "((\<exists>tok \<in> set (str_split CHR ''.'' s). py_int tok = None) \<longrightarrow>
      (\<exists>bad. find (\<lambda>tok. py_int tok = None) (str_split CHR ''.'' s) = Some bad
         \<and> init (BpcStr s) = Inl (ValueError bad)))
   \<and> ((\<forall>tok \<in> set (str_split CHR ''.'' s). py_int tok \<noteq> None) \<longrightarrow>
      init (BpcStr s)
        = Inr \<lparr>bits_per_component = map (the \<circ> py_int) (str_split CHR ''.'' s)\<rparr>
      \<and> init (BpcStr s) = init (BpcList (map (the \<circ> py_int) (str_split CHR ''.'' s))))
   \<and> init (BpcList ws) = Inr \<lparr>bits_per_component = ws\<rparr>
   \<and> init a \<noteq> Inl (HashVerException m)
   \<and> init (BpcStr ''8.8.16.8'') = Inr \<lparr>bits_per_component = [8, 8, 16, 8]\<rparr>
   \<and> init (BpcList [8, 8, 16, 8]) = Inr \<lparr>bits_per_component = [8, 8, 16, 8]\<rparr>"
proof (intro conjI impI)
  assume "\<exists>tok \<in> set (str_split CHR ''.'' s). py_int tok = None"
  then obtain bad where f: "find (\<lambda>tok. py_int tok = None) (str_split CHR ''.'' s) = Some bad"
    by (cases "find (\<lambda>tok. py_int tok = None) (str_split CHR ''.'' s)")
      (auto simp: find_None_iff)
  then show "\<exists>bad. find (\<lambda>tok. py_int tok = None) (str_split CHR ''.'' s) = Some bad
      \<and> init (BpcStr s) = Inl (ValueError bad)"
    by (simp add: int_each_find)
next
  assume all: "\<forall>tok \<in> set (str_split CHR ''.'' s). py_int tok \<noteq> None"
  then have n: "find (\<lambda>tok. py_int tok = None) (str_split CHR ''.'' s) = None"
    by (simp add: find_None_iff)
  then show "init (BpcStr s)
      = Inr \<lparr>bits_per_component = map (the \<circ> py_int) (str_split CHR ''.'' s)\<rparr>"
    by (simp add: int_each_find)
  from n show "init (BpcStr s) = init (BpcList (map (the \<circ> py_int) (str_split CHR ''.'' s)))"
    by (simp add: int_each_find)
next
  show "init (BpcList ws) = Inr \<lparr>bits_per_component = ws\<rparr>"
    by simp
next
  show "init a \<noteq> Inl (HashVerException m)"
    by (cases a) (auto split: sum.splits)
next
  show "init (BpcStr ''8.8.16.8'') = Inr \<lparr>bits_per_component = [8, 8, 16, 8]\<rparr>"
    by code_simp
next
  show "init (BpcList [8, 8, 16, 8]) = Inr \<lparr>bits_per_component = [8, 8, 16, 8]\<rparr>"
    by simp
qed

theorem init_from_string_witness:
  "str_split CHR ''.'' ''8.x.16.y'' = [''8'', ''x'', ''16'', ''y'']
   \<and> py_int ''x'' = None
   \<and> init (BpcStr ''8.x.16.y'') = Inl (ValueError ''x'')
   \<and> map py_int (str_split CHR ''.'' ''8.4.16'') = [Some 8, Some 4, Some 16]
   \<and> init (BpcStr ''8.4.16'') = Inr \<lparr>bits_per_component = [8, 4, 16]\<rparr>
   \<and> init (BpcStr ''8.4.16'') = init (BpcList [8, 4, 16])"
proof -
  have s1: "str_split CHR ''.'' ''8.x.16.y'' = [''8'', ''x'', ''16'', ''y'']"
    and s2: "str_split CHR ''.'' ''8.4.16'' = [''8'', ''4'', ''16'']"
    by code_simp+
  have p: "py_int ''8'' = Some 8" "py_int ''x'' = None" "py_int ''16'' = Some 16"
    "py_int ''4'' = Some 4" "py_int ''y'' = None"
    by code_simp+
  have h1: "\<exists>tok \<in> set (str_split CHR ''.'' ''8.x.16.y''). py_int tok = None"
    unfolding s1 by (simp add: p)
  have h2: "\<forall>tok \<in> set (str_split CHR ''.'' ''8.4.16''). py_int tok \<noteq> None"
    unfolding s2 by (simp add: p)
  have a: "init (BpcStr ''8.x.16.y'') = Inl (ValueError ''x'')"
    using init_from_string [of "''8.x.16.y''"] h1 unfolding s1 by (auto simp: p)
  have b: "init (BpcStr ''8.4.16'') = Inr \<lparr>bits_per_component = [8, 4, 16]\<rparr>"
    and c: "init (BpcStr ''8.4.16'') = init (BpcList [8, 4, 16])"
    using init_from_string [of "''8.4.16''"] h2 unfolding s2 by (simp_all add: p)
  show ?thesis
    using s1 s2 p a b c by simp
qed

text \<open>C9 as stated fails in the kind of the error: the profile string "8.x.16" makes
  the constructor fail with the built-in \<open>ValueError\<close>, which is not the domain
  error.\<close>

theorem init_value_error_counterexample:
  "init (BpcStr ''8.x.16'') = Inl (ValueError ''x'')
   \<and> \<not> is_domain_error (ValueError ''x'')"
  by code_simp

section \<open>The first width\<close>

lemma accumulate_error:
  "accumulate num shift ps = Inl e \<Longrightarrow> e = HashVerException (ParsingError NegativeShiftCount)"
  by (induction num shift ps rule: accumulate.induct) (auto split: if_splits)

lemma parse_components_error:
  "parse_components v = Inl e \<Longrightarrow>
     (\<exists>c. e = HashVerException (ComponentNotNumeric c))
     \<or> (\<exists>c. e = HashVerException (LastComponentNotNumeric c))"
  by (auto simp: parse_components_def Let_def split: sum.splits option.splits)

lemma accumulate_first_width:
  "accumulate 0 False (zip vpc (w1 # ws)) = accumulate 0 False (zip vpc (w2 # ws))"
  by (cases vpc) simp_all

text \<open>C10, amended: under two profiles of the same length that agree on every width but
  the first, \<open>get_num\<close> gives the same result, the same integer or the same error; only
  the component-count error differs, in the profile that its message names.\<close>

theorem get_num_first_width:
  assumes "length (bits_per_component h1) = length (bits_per_component h2)"
    and "tl (bits_per_component h1) = tl (bits_per_component h2)"
  shows "get_num h2 version_str =
           (if get_num h1 version_str
                 = Inl (HashVerException
                     (ComponentCountMismatch version_str (bits_per_component h1)))
            then Inl (HashVerException
                   (ComponentCountMismatch version_str (bits_per_component h2)))
            else get_num h1 version_str)"
proof (cases "parse_components version_str")
  case (Inl e)
  then show ?thesis
    using parse_components_error [OF Inl] by (auto simp: get_num_def)
next
  case (Inr vpc)
  show ?thesis
  proof (cases "length (bits_per_component h1) = length vpc")
    case False
    then show ?thesis using Inr assms(1) by (simp add: get_num_def)
  next
    case True
    have acc: "accumulate 0 False (zip vpc (bits_per_component h1))
                 = accumulate 0 False (zip vpc (bits_per_component h2))"
    proof (cases "bits_per_component h1")
      case Nil
      then show ?thesis using assms(1) by simp
    next
      case (Cons w1 ws)
      then obtain w2 where "bits_per_component h2 = w2 # ws"
        using assms by (cases "bits_per_component h2") auto
      then show ?thesis using Cons accumulate_first_width by simp
    qed
    have "accumulate 0 False (zip vpc (bits_per_component h1))
            \<noteq> Inl (HashVerException (ComponentCountMismatch version_str (bits_per_component h1)))"
      using accumulate_error by fastforce
    then show ?thesis
      using Inr True assms(1) acc by (simp add: get_num_def)
  qed
qed

theorem get_num_first_width_witness:
  "length (bits_per_component \<lparr>bits_per_component = [16, 16, 16]\<rparr>)
     = length (bits_per_component \<lparr>bits_per_component = [8, 16, 16]\<rparr>)
   \<and> tl (bits_per_component \<lparr>bits_per_component = [16, 16, 16]\<rparr>)
     = tl (bits_per_component \<lparr>bits_per_component = [8, 16, 16]\<rparr>)
   \<and> get_num \<lparr>bits_per_component = [16, 16, 16]\<rparr> ''1.2.3'' = Inr 4295098371
   \<and> get_num \<lparr>bits_per_component = [8, 16, 16]\<rparr> ''1.2.3'' = Inr 4295098371"
proof -
  let ?h1 = "\<lparr>bits_per_component = [16, 16, 16]\<rparr>"
  let ?h2 = "\<lparr>bits_per_component = [8, 16, 16]\<rparr>"
  have l: "length (bits_per_component ?h1) = length (bits_per_component ?h2)"
    and t: "tl (bits_per_component ?h1) = tl (bits_per_component ?h2)"
    by simp_all
  have a: "get_num ?h1 ''1.2.3'' = Inr 4295098371"
    by code_simp
  have b: "get_num ?h2 ''1.2.3'' = Inr 4295098371"
    using get_num_first_width [OF l t, of "''1.2.3''"] unfolding a by simp
  show ?thesis
    using l t a b by blast
qed

text \<open>C10 as stated fails where the component count does not match: the two failures
  of "1.2" under the widths 16, 16, 16 and 8, 16, 16 are not identical, since each
  message names its own profile.\<close>

theorem get_num_first_width_counterexample:
  "get_num \<lparr>bits_per_component = [16, 16, 16]\<rparr> ''1.2''
     = Inl (HashVerException (ComponentCountMismatch ''1.2'' [16, 16, 16]))
   \<and> get_num \<lparr>bits_per_component = [8, 16, 16]\<rparr> ''1.2''
     = Inl (HashVerException (ComponentCountMismatch ''1.2'' [8, 16, 16]))
   \<and> get_num \<lparr>bits_per_component = [16, 16, 16]\<rparr> ''1.2''
     \<noteq> get_num \<lparr>bits_per_component = [8, 16, 16]\<rparr> ''1.2''"
  by code_simp

section \<open>The suffix of the last component\<close>

lemma str_split_append:
  "sep \<notin> set t \<Longrightarrow>
     str_split sep (s @ t) = butlast (str_split sep s) @ [last (str_split sep s) @ t]"
proof (induction s)
  case Nil
  then show ?case
    by (induction t) (auto simp: str_split_nonempty)
next
  case (Cons c cs)
  then show ?case
    by (cases "str_split sep cs") (auto simp: str_split_nonempty)
qed

lemma takeWhile_append_stop:
  "\<not> P y \<Longrightarrow> takeWhile P (xs @ y # ys) = takeWhile P xs"
  by (induction xs) auto

lemma stripped_components_suffix:
  assumes "CHR ''.'' \<notin> set suffix"
  shows "stripped_components (version_str @ CHR ''-'' # suffix) = stripped_components version_str"
proof -
  have "CHR ''.'' \<notin> set (CHR ''-'' # suffix)" using assms by simp
  then have "str_split CHR ''.'' (version_str @ CHR ''-'' # suffix)
               = butlast (str_split CHR ''.'' version_str)
                   @ [last (str_split CHR ''.'' version_str) @ CHR ''-'' # suffix]"
    by (rule str_split_append)
  then show ?thesis
    by (simp add: stripped_components_def Let_def hd_str_split takeWhile_append_stop)
qed

lemma length_stripped_components:
  "length (stripped_components v) = length (str_split CHR ''.'' v)"
  using str_split_nonempty [of "CHR ''.''" v]
  by (cases "str_split CHR ''.'' v") (auto simp: stripped_components_def Let_def)

lemma get_num_Inr_iff:
  "get_num self v = Inr num \<longleftrightarrow>
     (\<exists>vpc. int_each (stripped_components v) = Inr vpc
        \<and> length (bits_per_component self) = length vpc
        \<and> accumulate 0 False (zip vpc (bits_per_component self)) = Inr num)"
  by (auto simp: get_num_def Let_def parse_components_Inr_iff split: sum.splits)
    (metis parse_components_Inr_iff sum.distinct(1))+

lemma char_of_digit_not_hyphen: "n < 10 \<Longrightarrow> CHR ''-'' \<noteq> char_of (48 + n :: nat)"
proof
  assume "n < 10" and "CHR ''-'' = char_of (48 + n)"
  then have "of_char (char_of (48 + n)) = (of_char CHR ''-'' :: nat)" by simp
  then show False using \<open>n < 10\<close> by simp
qed

lemma str_nat_no_hyphen: "CHR ''-'' \<notin> set (str_nat n)"
proof (induction n rule: str_nat.induct)
  case (1 n)
  show ?case
  proof (cases "n < 10")
    case True
    then show ?thesis
      by (subst str_nat.simps) (simp add: char_of_digit_not_hyphen)
  next
    case False
    have "n mod 10 < 10" by simp
    then show ?thesis
      using False "1.IH" by (subst str_nat.simps) (simp add: char_of_digit_not_hyphen)
  qed
qed

lemma py_str_no_hyphen: "0 \<le> i \<Longrightarrow> CHR ''-'' \<notin> set (py_str i)"
  by (simp add: py_str_def str_nat_no_hyphen)

lemma unpack_no_hyphen:
  "unpack ws m comps = Inr (m', comps') \<Longrightarrow> \<forall>c \<in> set comps. CHR ''-'' \<notin> set c
     \<Longrightarrow> \<forall>c \<in> set comps'. CHR ''-'' \<notin> set c"
proof (induction ws arbitrary: m comps)
  case Nil
  then show ?case by simp
next
  case (Cons w ws)
  from Cons.prems(1) have w: "0 \<le> w"
    and u: "unpack ws (drop_bit (nat w) m) (py_str (m AND (2 ^ nat w - 1)) # comps) = Inr (m', comps')"
    by (auto simp: Let_def split: if_splits)
  have "0 \<le> m AND (2 ^ nat w - 1)"
    by (simp add: and_max_val)
  then have "\<forall>c \<in> set (py_str (m AND (2 ^ nat w - 1)) # comps). CHR ''-'' \<notin> set c"
    using Cons.prems(2) py_str_no_hyphen by simp
  then show ?case
    by (rule Cons.IH [OF u])
qed

lemma str_join_no_hyphen:
  "\<forall>c \<in> set cs. CHR ''-'' \<notin> set c \<Longrightarrow> CHR ''-'' \<notin> set (str_join ''.'' cs)"
  by (induction "''.''" cs rule: str_join.induct) auto

lemma get_version_str_no_hyphen:
  assumes "get_version_str self num = Inr out"
  shows "CHR ''-'' \<notin> set out"
proof -
  from assms obtain m comps where u: "unpack (rev (bits_per_component self)) num [] = Inr (m, comps)"
    and o: "out = str_join ''.'' comps"
    by (auto simp: get_version_str_def Let_def split: sum.splits if_splits)
  have "\<forall>c \<in> set comps. CHR ''-'' \<notin> set c"
    using unpack_no_hyphen [OF u] by simp
  then show ?thesis
    unfolding o by (rule str_join_no_hyphen)
qed

text \<open>C7: a hyphen and any suffix without a dot, appended to a version string, do not
  change the integer \<open>get_num\<close> returns, nor whether it returns one: only the part of
  the last component before its first hyphen is encoded. No decoded string holds a
  hyphen, so the suffix does not come back. "0.6.4-rc1" under the widths 16, 16, 16
  is encoded, and its encoding decodes to "0.6.4".\<close>

theorem get_num_suffix:
  assumes "CHR ''.'' \<notin> set suffix"
  shows "(get_num self (version_str @ ''-'' @ suffix) = Inr num
            \<longleftrightarrow> get_num self version_str = Inr num)
         \<and> (get_version_str self num = Inr out \<longrightarrow> CHR ''-'' \<notin> set out)
         \<and> get_num \<lparr>bits_per_component = [16, 16, 16]\<rparr> ''0.6.4-rc1'' = Inr 393220
         \<and> get_version_str \<lparr>bits_per_component = [16, 16, 16]\<rparr> 393220 = Inr ''0.6.4''"
proof (intro conjI impI)
  show "get_num self (version_str @ ''-'' @ suffix) = Inr num
          \<longleftrightarrow> get_num self version_str = Inr num"
    unfolding get_num_Inr_iff using stripped_components_suffix [OF assms] by simp
  show "CHR ''-'' \<notin> set out" if "get_version_str self num = Inr out"
    using that by (rule get_version_str_no_hyphen)
  show "get_num \<lparr>bits_per_component = [16, 16, 16]\<rparr> ''0.6.4-rc1'' = Inr 393220"
    by code_simp
  show "get_version_str \<lparr>bits_per_component = [16, 16, 16]\<rparr> 393220 = Inr ''0.6.4''"
    by code_simp
qed

theorem get_num_suffix_witness:
  "CHR ''.'' \<notin> set ''rc2''
   \<and> get_num \<lparr>bits_per_component = [8, 8, 16]\<rparr> ''1.5.1'' = Inr 17104897
   \<and> get_num \<lparr>bits_per_component = [8, 8, 16]\<rparr> ''1.5.1-rc2'' = Inr 17104897
   \<and> get_version_str \<lparr>bits_per_component = [8, 8, 16]\<rparr> 17104897 = Inr ''1.5.1''
   \<and> CHR ''-'' \<notin> set ''1.5.1''"
proof -
  let ?h = "\<lparr>bits_per_component = [8, 8, 16]\<rparr>"
  have d: "CHR ''.'' \<notin> set ''rc2''"
    by simp
  have a: "get_num ?h ''1.5.1'' = Inr 17104897"
    by code_simp
  have g: "get_version_str ?h 17104897 = Inr ''1.5.1''"
    by code_simp
  have b: "get_num ?h (''1.5.1'' @ ''-'' @ ''rc2'') = Inr 17104897"
    using get_num_suffix [OF d, of ?h "''1.5.1''" 17104897] a by blast
  have c: "CHR ''-'' \<notin> set ''1.5.1''"
    using get_num_suffix [OF d, of ?h "''1.5.1''" 17104897 "''1.5.1''"] g by blast
  show ?thesis
    using d a b c g by simp
qed

section \<open>Decimal texts\<close>

lemma is_digit_char_of: "n < 10 \<Longrightarrow> is_digit (char_of (48 + n :: nat))"
  by (simp add: is_digit_def)

lemma digit_val_char_of: "n < 10 \<Longrightarrow> digit_val (char_of (48 + n :: nat)) = int n"
  by (simp add: digit_val_def)

lemma str_nat_digits: "\<forall>c \<in> set (str_nat n). is_digit c"
proof (induction n rule: str_nat.induct)
  case (1 n)
  show ?case
  proof (cases "n < 10")
    case True
    then show ?thesis
      by (subst str_nat.simps) (simp add: is_digit_char_of)
  next
    case False
    have "n mod 10 < 10" by simp
    then show ?thesis
      using False "1.IH" by (subst str_nat.simps) (simp add: is_digit_char_of)
  qed
qed

lemma str_nat_nonempty: "str_nat n \<noteq> []"
  by (subst str_nat.simps) simp

lemma is_digit_not_special:
  "is_digit c \<Longrightarrow> \<not> is_space c \<and> c \<noteq> CHR ''_'' \<and> c \<noteq> CHR ''-'' \<and> c \<noteq> CHR ''+'' \<and> c \<noteq> CHR ''.''"
  by (auto simp: is_digit_def is_space_def)

lemma dropWhile_none: "\<forall>c \<in> set xs. \<not> P c \<Longrightarrow> dropWhile P xs = xs"
  by (cases xs) auto

lemma strip_no_space: "\<forall>c \<in> set s. \<not> is_space c \<Longrightarrow> strip s = s"
  by (simp add: strip_def dropWhile_none)

lemma digits_ok_digits:
  "\<forall>c \<in> set s. is_digit c \<Longrightarrow> digits_ok prev_us s \<longleftrightarrow> (s \<noteq> [] \<or> \<not> prev_us)"
  by (induction s arbitrary: prev_us) (auto dest: is_digit_not_special)

lemma digits_value_snoc:
  "c \<noteq> CHR ''_'' \<Longrightarrow> \<forall>d \<in> set s. d \<noteq> CHR ''_'' \<Longrightarrow>
     digits_value acc (s @ [c]) = digits_value acc s * 10 + digit_val c"
  by (induction s arbitrary: acc) auto

lemma digits_value_str_nat: "digits_value 0 (str_nat n) = int n"
proof (induction n rule: str_nat.induct)
  case (1 n)
  show ?case
  proof (cases "n < 10")
    case True
    then show ?thesis
      by (subst str_nat.simps) (simp add: digit_val_char_of is_digit_not_special is_digit_char_of)
  next
    case False
    have m: "n mod 10 < 10" by simp
    have u: "\<forall>d \<in> set (str_nat (n div 10)). d \<noteq> CHR ''_''"
      using str_nat_digits is_digit_not_special by blast
    have c: "char_of (48 + n mod 10) \<noteq> CHR ''_''"
      using is_digit_char_of [OF m] is_digit_not_special by blast
    have "digits_value 0 (str_nat n)
            = digits_value 0 (str_nat (n div 10)) * 10 + digit_val (char_of (48 + n mod 10))"
      using False by (subst str_nat.simps) (simp add: digits_value_snoc [OF c u])
    also have "\<dots> = int (n div 10) * 10 + int (n mod 10)"
      using False "1.IH" by (simp add: digit_val_char_of [OF m])
    also have "\<dots> = int n"
      by presburger
    finally show ?thesis .
  qed
qed

lemma py_int_py_str: "0 \<le> i \<Longrightarrow> py_int (py_str i) = Some i"
proof -
  assume i: "0 \<le> i"
  let ?s = "str_nat (nat i)"
  have d: "\<forall>c \<in> set ?s. is_digit c" by (rule str_nat_digits)
  then have st: "strip ?s = ?s"
    using is_digit_not_special by (intro strip_no_space) blast
  obtain c cs where s: "?s = c # cs"
    using str_nat_nonempty [of "nat i"] by (cases ?s) auto
  have c: "c \<noteq> CHR ''-''" "c \<noteq> CHR ''+''"
    using d s is_digit_not_special by auto
  have "unsigned_int ?s = Some i"
    using i d str_nat_nonempty [of "nat i"]
    by (simp add: unsigned_int_def digits_ok_digits digits_value_str_nat)
  then show ?thesis
    using i st s c by (simp add: py_int_def py_str_def)
qed

lemma py_str_no_dot: "0 \<le> i \<Longrightarrow> CHR ''.'' \<notin> set (py_str i)"
  using str_nat_digits is_digit_not_special by (auto simp: py_str_def)

lemma str_split_no_sep: "sep \<notin> set s \<Longrightarrow> str_split sep s = [s]"
  by (induction s) auto

lemma str_split_join:
  "cs \<noteq> [] \<Longrightarrow> \<forall>c \<in> set cs. sep \<notin> set c \<Longrightarrow> str_split sep (str_join [sep] cs) = cs"
proof (induction "[sep]" cs rule: str_join.induct)
  case 1
  then show ?case by simp
next
  case (2 x)
  then show ?case by (simp add: str_split_no_sep)
next
  case (3 x y ys)
  have x: "sep \<notin> set x" using "3.prems" by simp
  have r: "str_split sep (str_join [sep] (y # ys)) = y # ys"
    using 3 by simp
  have "str_split sep (x @ sep # t) = x # str_split sep t" for t
    using x by (induction x) auto
  then show ?case
    using r by simp
qed

section \<open>Order and bijection\<close>

lemma field_fits:
  "\<forall>w \<in> set bpc. 0 \<le> w \<Longrightarrow> i < length bpc \<Longrightarrow> fits (field bpc num i) (bpc ! i)"
  by (simp add: fits_def field_def)

lemma weighted_sum_fields:
  "\<forall>w \<in> set bpc. 0 \<le> w \<Longrightarrow> 0 \<le> num \<Longrightarrow> num < 2 ^ nat (sum_list bpc) \<Longrightarrow>
     weighted_sum (map (field bpc num) [0..<length bpc]) bpc = num"
proof (induction bpc arbitrary: num)
  case Nil
  then show ?case by (simp add: weighted_sum_def)
next
  case (Cons w ws)
  let ?S = "nat (sum_list ws)"
  let ?v = "num div 2 ^ ?S"
  let ?r = "num mod 2 ^ ?S"
  have nn: "\<forall>w \<in> set ws. 0 \<le> w" and w: "0 \<le> w"
    using Cons.prems(1) by simp_all
  have "0 \<le> sum_list ws" using nn by (simp add: sum_list_nonneg)
  then have e: "nat (sum_list (w # ws)) = nat w + ?S"
    using w by (simp add: nat_add_distrib)
  have x: "num = ?v * 2 ^ ?S + ?r"
    by (simp add: div_mult_mod_eq)
  have r: "0 \<le> ?r" "?r < 2 ^ ?S"
    by simp_all
  have v: "0 \<le> ?v"
    using Cons.prems(2) by (simp add: pos_imp_zdiv_nonneg_iff)
  have v2: "?v < 2 ^ nat w"
  proof (rule ccontr)
    assume "\<not> ?v < 2 ^ nat w"
    then have "2 ^ nat w \<le> ?v" by simp
    then have "2 ^ nat w * 2 ^ ?S \<le> ?v * (2 ^ ?S :: int)"
      by (intro mult_right_mono) simp_all
    also have "\<dots> \<le> num"
      using x r(1) by linarith
    finally show False
      using Cons.prems(3) unfolding e by (simp add: power_add)
  qed
  have f0: "field (w # ws) num 0 = ?v"
    using v v2 by (simp add: field_Cons_0)
  have fS: "field (w # ws) num (Suc i) = field ws ?r i" if "i < length ws" for i
    using field_Cons_Suc [OF that nn w, of ?v ?r] by (simp only: div_mult_mod_eq)
  have "map (field (w # ws) num) [0..<length (w # ws)]
          = ?v # map (field ws ?r) [0..<length ws]"
    using f0 fS by (simp add: map_upt_Suc del: upt_Suc)
  then have "weighted_sum (map (field (w # ws) num) [0..<length (w # ws)]) (w # ws)
          = ?v * 2 ^ ?S + weighted_sum (map (field ws ?r) [0..<length ws]) ws"
    by (simp only: weighted_sum_Cons)
  also have "\<dots> = ?v * 2 ^ ?S + ?r"
    using Cons.IH [OF nn r] by simp
  finally show ?case
    using x by simp
qed

lemma valid_under_fields:
  "\<forall>w \<in> set bpc. 0 \<le> w \<Longrightarrow> valid_under bpc (map (field bpc num) [0..<length bpc])"
  by (simp add: valid_under_def list_all2_conv_all_nth field_fits)

lemma parse_components_join:
  assumes "vpc \<noteq> []" and "\<forall>v \<in> set vpc. 0 \<le> v"
  shows "parse_components (str_join ''.'' (map py_str vpc)) = Inr vpc"
proof -
  let ?cs = "map py_str vpc"
  have ne: "?cs \<noteq> []" using assms(1) by simp
  have "\<forall>c \<in> set ?cs. CHR ''.'' \<notin> set c"
    using assms(2) py_str_no_dot by auto
  then have sp: "str_split CHR ''.'' (str_join ''.'' ?cs) = ?cs"
    by (rule str_split_join [OF ne])
  have "last vpc \<in> set vpc" using assms(1) by simp
  then have "CHR ''-'' \<notin> set (py_str (last vpc))"
    using assms(2) py_str_no_hyphen by blast
  then have "hd (str_split CHR ''-'' (last ?cs)) = last ?cs"
    using assms(1) by (auto simp: hd_str_split last_map)
  then have "stripped_components (str_join ''.'' ?cs) = ?cs"
    using ne by (simp add: stripped_components_def sp)
  moreover have "int_each ?cs = Inr vpc"
  proof -
    have "\<forall>c \<in> set ?cs. py_int c \<noteq> None"
      using assms(2) py_int_py_str by auto
    then have "find (\<lambda>x. py_int x = None) ?cs = None"
      by (simp add: find_None_iff)
    moreover have "map (the \<circ> py_int) ?cs = vpc"
      using assms(2) by (simp add: py_int_py_str map_idI)
    ultimately show ?thesis
      by (simp add: int_each_find)
  qed
  ultimately show ?thesis
    by (simp add: parse_components_Inr_iff)
qed

lemma decode_then_encode:
  assumes "bits_per_component self \<noteq> []"
    and "\<forall>w \<in> set (bits_per_component self). 0 \<le> w"
    and "0 \<le> num" and "num < 2 ^ nat (sum_list (bits_per_component self))"
  shows "\<exists>version_str vpc. get_version_str self num = Inr version_str
           \<and> parse_components version_str = Inr vpc
           \<and> valid_under (bits_per_component self) vpc
           \<and> get_num self version_str = Inr num"
proof -
  let ?bpc = "bits_per_component self"
  let ?vpc = "map (field ?bpc num) [0..<length ?bpc]"
  let ?V = "str_join ''.'' (map py_str ?vpc)"
  have va: "valid_under ?bpc ?vpc"
    by (rule valid_under_fields [OF assms(2)])
  have "num div 2 ^ nat (sum_list ?bpc) = 0"
    using assms(3,4) by simp
  then have dec: "get_version_str self num = Inr ?V"
    by (simp add: get_version_str_closed [OF assms(2)] comp_def)
  have ne: "?vpc \<noteq> []" using assms(1) by simp
  have "\<forall>v \<in> set ?vpc. 0 \<le> v"
    by (auto simp: field_def)
  then have p: "parse_components ?V = Inr ?vpc"
    by (rule parse_components_join [OF ne])
  have "get_num self ?V = Inr (weighted_sum ?vpc ?bpc)"
    by (rule get_num_closed [OF p _ tl_nonneg [OF assms(2)]]) simp
  then have enc: "get_num self ?V = Inr num"
    by (simp only: weighted_sum_fields [OF assms(2,3,4)])
  show ?thesis
    using dec p va enc by blast
qed

text \<open>C2: for two version strings that parse and whose values are valid under the same
  profile, both encodings exist and lie in \<open>[0, 2^(w\<^sub>1 + ... + w\<^sub>n))\<close>; the component-wise
  comparison of the values, most significant first, is the sign of the difference of
  the encodings; the first is smaller component-wise exactly when its encoding is
  smaller, and the values are equal exactly when the encodings are. Every integer of
  that range is the encoding of a version string that is valid under the profile.\<close>

theorem get_num_order:
  assumes "parse_components version_a = Inr va"
    and "parse_components version_b = Inr vb"
    and "valid_under (bits_per_component self) va"
    and "valid_under (bits_per_component self) vb"
  shows "(\<exists>a b. get_num self version_a = Inr a \<and> get_num self version_b = Inr b
            \<and> 0 \<le> a \<and> a < 2 ^ nat (sum_list (bits_per_component self))
            \<and> component_wise_compare va vb = sgn (a - b)
            \<and> (component_wise_compare va vb < 0 \<longleftrightarrow> a < b)
            \<and> (va = vb \<longleftrightarrow> a = b))
         \<and> (\<forall>num. 0 \<le> num \<and> num < 2 ^ nat (sum_list (bits_per_component self)) \<longrightarrow>
              (\<exists>version_str vpc. parse_components version_str = Inr vpc
                 \<and> valid_under (bits_per_component self) vpc
                 \<and> get_num self version_str = Inr num))"
proof -
  let ?bpc = "bits_per_component self"
  have nn: "\<forall>w \<in> set ?bpc. 0 \<le> w"
    by (rule valid_under_nonneg [OF assms(3)])
  have a: "get_num self version_a = Inr (weighted_sum va ?bpc)"
    by (rule get_num_closed [OF assms(1) valid_under_length [OF assms(3)] tl_nonneg [OF nn]])
  have b: "get_num self version_b = Inr (weighted_sum vb ?bpc)"
    by (rule get_num_closed [OF assms(2) valid_under_length [OF assms(4)] tl_nonneg [OF nn]])
  have r: "0 \<le> weighted_sum va ?bpc" "weighted_sum va ?bpc < 2 ^ nat (sum_list ?bpc)"
    using weighted_sum_bounds [OF assms(3)] by simp_all
  have c: "component_wise_compare va vb = sgn (weighted_sum va ?bpc - weighted_sum vb ?bpc)"
    by (rule compare_weighted_sum [OF assms(3,4)])
  have len: "length va = length vb"
    using valid_under_length [OF assms(3)] valid_under_length [OF assms(4)] by simp
  have e: "va = vb \<longleftrightarrow> weighted_sum va ?bpc = weighted_sum vb ?bpc"
    using compare_eq_0_iff [OF len] c by (auto simp: sgn_if split: if_splits)
  have l: "component_wise_compare va vb < 0 \<longleftrightarrow> weighted_sum va ?bpc < weighted_sum vb ?bpc"
    unfolding c by (simp add: sgn_if)
  have first: "\<exists>a b. get_num self version_a = Inr a \<and> get_num self version_b = Inr b
            \<and> 0 \<le> a \<and> a < 2 ^ nat (sum_list ?bpc)
            \<and> component_wise_compare va vb = sgn (a - b)
            \<and> (component_wise_compare va vb < 0 \<longleftrightarrow> a < b)
            \<and> (va = vb \<longleftrightarrow> a = b)"
    using a b r c e l by blast
  have "length va = length (str_split CHR ''.'' version_a)"
    by (rule parse_components_length [OF assms(1)])
  then have "va \<noteq> []"
    using str_split_nonempty [of "CHR ''.''" version_a] by auto
  then have ne: "?bpc \<noteq> []"
    using valid_under_length [OF assms(3)] by auto
  have second: "\<exists>version_str vpc. parse_components version_str = Inr vpc
                 \<and> valid_under ?bpc vpc \<and> get_num self version_str = Inr num"
    if "0 \<le> num \<and> num < 2 ^ nat (sum_list ?bpc)" for num
    using decode_then_encode [OF ne nn, of num] that by blast
  show ?thesis
    using first second by blast
qed

theorem get_num_order_witness:
  "parse_components ''8.20.1300.14'' = Inr [8, 20, 1300, 14]
   \<and> parse_components ''8.20.1300.24'' = Inr [8, 20, 1300, 24]
   \<and> valid_under [16, 16, 16, 16] [8, 20, 1300, 14]
   \<and> valid_under [16, 16, 16, 16] [8, 20, 1300, 24]
   \<and> component_wise_compare [8, 20, 1300, 14] [8, 20, 1300, 24] = - 1
   \<and> (\<exists>a b. get_num \<lparr>bits_per_component = [16, 16, 16, 16]\<rparr> ''8.20.1300.14'' = Inr a
         \<and> get_num \<lparr>bits_per_component = [16, 16, 16, 16]\<rparr> ''8.20.1300.24'' = Inr b
         \<and> a < b)
   \<and> (\<exists>version_str. get_num \<lparr>bits_per_component = [16, 16, 16, 16]\<rparr> version_str = Inr 7)"
proof -
  let ?S = "\<lparr>bits_per_component = [16, 16, 16, 16]\<rparr>"
  have pa: "parse_components ''8.20.1300.14'' = Inr [8, 20, 1300, 14]"
    by code_simp
  have pb: "parse_components ''8.20.1300.24'' = Inr [8, 20, 1300, 24]"
    by code_simp
  have va: "valid_under (bits_per_component ?S) [8, 20, 1300, 14]"
    by (simp add: valid_under_def fits_def)
  have vb: "valid_under (bits_per_component ?S) [8, 20, 1300, 24]"
    by (simp add: valid_under_def fits_def)
  have c: "component_wise_compare [8, 20, 1300, 14] [8, 20, 1300, 24] = - 1"
    by simp
  note t = get_num_order [OF pa pb va vb]
  have o: "\<exists>a b. get_num ?S ''8.20.1300.14'' = Inr a \<and> get_num ?S ''8.20.1300.24'' = Inr b
             \<and> a < b"
    using t c by auto
  have "(0::int) \<le> 7 \<and> (7::int) < 2 ^ nat (sum_list (bits_per_component ?S))"
    by simp
  then have s: "\<exists>version_str. get_num ?S version_str = Inr 7"
    using t by blast
  show ?thesis
    using pa pb va vb c o s by simp
qed

end
